theory Spec2Isabelle
  imports Main "HOL-Library.Option_ord" "HOL-Library.Multiset"
begin

section \<open>Rooms and timeline events\<close>

text \<open>
  The client library's objects, reduced to what \<^verbatim>\<open>main.ts\<close> reads from them.
  \<^verbatim>\<open>sdk.EventType\<close> and \<^verbatim>\<open>sdk.MsgType\<close> are enums of the library; the script
  compares against \<^verbatim>\<open>RoomMessage\<close>, \<^verbatim>\<open>RoomMessageEncrypted\<close> and \<^verbatim>\<open>Text\<close> only,
  every other value is kept by its name.
\<close>

datatype EventType = RoomMessage | RoomMessageEncrypted | OtherEventType string

datatype MsgType = Text | OtherMsgType string

text \<open>
  The object returned by \<^verbatim>\<open>event.getContent()\<close>: every field may be missing. A
  decrypted or plain message has \<^verbatim>\<open>msgtype\<close> and \<^verbatim>\<open>body\<close>, an encrypted one that has
  not been decrypted has \<^verbatim>\<open>ciphertext\<close>.
\<close>

record Content =
  msgtype :: "MsgType option"
  body :: "string option"
  ciphertext :: "string option"

text \<open>
  A timeline event; the fields are named after the accessors the script calls
  (\<^verbatim>\<open>getType()\<close>, \<^verbatim>\<open>getContent()\<close>, \<^verbatim>\<open>getTs()\<close>), \<^verbatim>\<open>eventId\<close> is its identity.
\<close>

record MatrixEvent =
  eventId :: string
  getType :: EventType
  getContent :: Content
  getTs :: int

text \<open>\<^verbatim>\<open>getLiveTimeline\<close> stands for \<^verbatim>\<open>room.getLiveTimeline().getEvents()\<close>.\<close>

record Room =
  roomId :: string
  name :: string
  getLiveTimeline :: "MatrixEvent list"

section \<open>getRoomList\<close>

text \<open>
  \<^verbatim>\<open>aEvents[aEvents.length - 1]\<close>: the last element, \<^verbatim>\<open>undefined\<close> on an empty array.
\<close>

definition lastEvent :: "MatrixEvent list \<Rightarrow> MatrixEvent option" where
  "lastEvent evs = (if evs = [] then None else Some (last evs))"

text \<open>The comparator that \<^verbatim>\<open>getRoomList\<close> passes to \<^verbatim>\<open>rooms.sort\<close>.\<close>

definition compareRooms :: "Room \<Rightarrow> Room \<Rightarrow> int" where
  "compareRooms a b =
     (let aEvents = getLiveTimeline a; bEvents = getLiveTimeline b in
      case lastEvent aEvents of
        None \<Rightarrow> - 1
      | Some aMsg \<Rightarrow>
          (case lastEvent bEvents of
             None \<Rightarrow> 1
           | Some bMsg \<Rightarrow>
               if getTs aMsg = getTs bMsg then 0
               else if getTs aMsg > getTs bMsg then 1 else - 1))"

text \<open>
  \<^verbatim>\<open>Array.prototype.sort\<close> belongs to the JavaScript runtime. It is a stable sort; for a
  comparator that is not consistent, as the one above is on rooms without events,
  ECMAScript leaves the order to the implementation. The engines' sorts ask the
  comparator about a later element against an earlier one and move the later one in
  front exactly when the answer is negative. \<open>arraySort\<close> is the insertion sort that does
  this: each element, taken from the left, goes in front of the first element of the
  sorted part against which it compares negative, and to the end when there is none.
\<close>

fun sortInsert :: "('a \<Rightarrow> 'a \<Rightarrow> int) \<Rightarrow> 'a \<Rightarrow> 'a list \<Rightarrow> 'a list" where
  "sortInsert cmp x [] = [x]"
| "sortInsert cmp x (y # ys) =
     (if cmp x y < 0 then x # y # ys else y # sortInsert cmp x ys)"

definition arraySort :: "('a \<Rightarrow> 'a \<Rightarrow> int) \<Rightarrow> 'a list \<Rightarrow> 'a list" where
  "arraySort cmp xs = foldl (\<lambda>sorted x. sortInsert cmp x sorted) [] xs"

definition getRoomList :: "Room list \<Rightarrow> Room list" where
  "getRoomList rooms = arraySort compareRooms rooms"

text \<open>The timestamp of a room's last event, \<open>None\<close> for a room without events.\<close>

definition lastTs :: "Room \<Rightarrow> int option" where
  "lastTs r = map_option getTs (lastEvent (getLiveTimeline r))"

text \<open>Concrete rooms: a name and the timestamps of the events of the timeline.\<close>

definition mkEvent :: "string \<Rightarrow> int \<Rightarrow> MatrixEvent" where
  "mkEvent i t = \<lparr>eventId = i, getType = RoomMessage,
     getContent = \<lparr>msgtype = Some Text, body = Some ''hello'', ciphertext = None\<rparr>, getTs = t\<rparr>"

definition mkRoom :: "string \<Rightarrow> int list \<Rightarrow> Room" where
  "mkRoom n tss = \<lparr>roomId = n, name = n, getLiveTimeline = map (mkEvent n) tss\<rparr>"

text \<open>
  Claim C1 fails on the code. The comparator returns at \<^verbatim>\<open>aMsg == null\<close> before it has
  looked at \<^verbatim>\<open>bMsg\<close>: for two rooms without events it answers \<open>-1\<close> both ways, and \<open>-1\<close>
  for such a room against itself, so it is no total order and says of neither room that
  it need not move. Three rooms without events come back in reverse order, not in the
  order they had.
\<close>

theorem getRoomList_reverses_rooms_without_events:
  "compareRooms (mkRoom ''E'' []) (mkRoom ''F'' []) = - 1 \<and>
   compareRooms (mkRoom ''F'' []) (mkRoom ''E'' []) = - 1 \<and>
   compareRooms (mkRoom ''E'' []) (mkRoom ''E'' []) = - 1 \<and>
   getRoomList [mkRoom ''E'' [], mkRoom ''F'' [], mkRoom ''G'' []] =
     [mkRoom ''G'' [], mkRoom ''F'' [], mkRoom ''E'' []]"
  by (simp add: getRoomList_def arraySort_def compareRooms_def lastEvent_def mkRoom_def)

text \<open>
  A run with rooms with and without events: the rooms without events come first, in
  reverse order; \<open>C\<close> and \<open>D\<close> (both 100) keep their input order.
\<close>

lemma getRoomList_example:
  "getRoomList [mkRoom ''A'' [200], mkRoom ''E'' [], mkRoom ''C'' [100], mkRoom ''F'' [], mkRoom ''D'' [7, 100]]
     = [mkRoom ''F'' [], mkRoom ''E'' [], mkRoom ''C'' [100], mkRoom ''D'' [7, 100], mkRoom ''A'' [200]]"
  by (simp add: getRoomList_def arraySort_def compareRooms_def lastEvent_def mkRoom_def mkEvent_def)

text \<open>
  The parts of C1 that the code keeps. The result holds the rooms of the input; the rooms
  without events come before the rooms with events; rooms whose last events have the same
  timestamp keep their input order; and when every room has an event and the last
  timestamps are pairwise distinct, they increase strictly along the result.
\<close>

lemma compareRooms_neg: "(compareRooms a b < 0) = (lastTs a = None \<or> lastTs a < lastTs b)"
  by (auto simp: compareRooms_def lastTs_def Let_def split: option.splits)

lemma lastTs_None: "(lastTs r = None) = (getLiveTimeline r = [])"
  by (simp add: lastTs_def lastEvent_def)

lemma lastTs_Some: "getLiveTimeline r \<noteq> [] \<Longrightarrow> lastTs r = Some (getTs (last (getLiveTimeline r)))"
  by (simp add: lastTs_def lastEvent_def)

lemma arraySort_snoc: "arraySort cmp (xs @ [x]) = sortInsert cmp x (arraySort cmp xs)"
  by (simp add: arraySort_def)

lemma arraySort_Nil: "arraySort cmp [] = []"
  by (simp add: arraySort_def)

lemma mset_sortInsert: "mset (sortInsert cmp x ys) = add_mset x (mset ys)"
  by (induction ys) simp_all

lemma set_sortInsert: "set (sortInsert cmp x ys) = insert x (set ys)"
  by (induction ys) auto

lemma sorted_sortInsert:
  "sorted (map lastTs ys) \<Longrightarrow> sorted (map lastTs (sortInsert compareRooms x ys))"
proof (induction ys)
  case Nil
  then show ?case by simp
next
  case (Cons y ys)
  show ?case
  proof (cases "compareRooms x y < 0")
    case True
    then have "lastTs x \<le> lastTs y"
      by (auto simp: compareRooms_neg)
    with Cons.prems True show ?thesis
      by (auto intro: order_trans)
  next
    case False
    then have "lastTs y \<le> lastTs x"
      by (auto simp: compareRooms_neg not_less)
    with Cons False show ?thesis
      by (auto simp: set_sortInsert)
  qed
qed

lemma filter_sortInsert_other: "\<not> P x \<Longrightarrow> filter P (sortInsert cmp x ys) = filter P ys"
  by (induction ys) simp_all

lemma filter_sortInsert_same:
  assumes "lastTs x = Some t"
  shows "sorted (map lastTs ys) \<Longrightarrow>
    filter (\<lambda>r. lastTs r = Some t) (sortInsert compareRooms x ys) =
    filter (\<lambda>r. lastTs r = Some t) ys @ [x]"
proof (induction ys)
  case Nil
  then show ?case using assms by simp
next
  case (Cons y ys)
  show ?case
  proof (cases "compareRooms x y < 0")
    case True
    then have lt: "Some t < lastTs y"
      using assms by (simp add: compareRooms_neg)
    have "\<forall>r \<in> set (y # ys). lastTs r \<noteq> Some t"
    proof
      fix r assume "r \<in> set (y # ys)"
      then have "lastTs y \<le> lastTs r" using Cons.prems by auto
      with lt show "lastTs r \<noteq> Some t" by auto
    qed
    then have "filter (\<lambda>r. lastTs r = Some t) (y # ys) = []"
      by (simp add: filter_empty_conv)
    with True assms show ?thesis by simp
  next
    case False
    with Cons show ?thesis by simp
  qed
qed

lemma sortInsert_no_events: "lastTs x = None \<Longrightarrow> sortInsert compareRooms x ys = x # ys"
  by (cases ys) (simp_all add: compareRooms_neg)

lemma getRoomList_mset: "mset (getRoomList rooms) = mset rooms"
  by (induction rooms rule: rev_induct)
    (simp_all add: getRoomList_def arraySort_Nil arraySort_snoc mset_sortInsert)

lemma getRoomList_sorted: "sorted (map lastTs (getRoomList rooms))"
  by (induction rooms rule: rev_induct)
    (simp_all add: getRoomList_def arraySort_Nil arraySort_snoc sorted_sortInsert)

lemma getRoomList_stable:
  "filter (\<lambda>r. lastTs r = Some t) (getRoomList rooms) = filter (\<lambda>r. lastTs r = Some t) rooms"
proof (induction rooms rule: rev_induct)
  case Nil
  show ?case by (simp add: getRoomList_def arraySort_Nil)
next
  case (snoc x xs)
  have s: "sorted (map lastTs (arraySort compareRooms xs))"
    using getRoomList_sorted [of xs] by (simp add: getRoomList_def)
  show ?case
  proof (cases "lastTs x = Some t")
    case True
    with snoc filter_sortInsert_same [OF True s] show ?thesis
      by (simp add: getRoomList_def arraySort_snoc)
  next
    case False
    with snoc show ?thesis
      by (simp add: getRoomList_def arraySort_snoc filter_sortInsert_other)
  qed
qed

text \<open>What the claim does not say: the rooms without events come out in reverse order.\<close>

lemma getRoomList_no_events_reversed:
  "filter (\<lambda>r. getLiveTimeline r = []) (getRoomList rooms) =
   rev (filter (\<lambda>r. getLiveTimeline r = []) rooms)"
proof (induction rooms rule: rev_induct)
  case Nil
  show ?case by (simp add: getRoomList_def arraySort_Nil)
next
  case (snoc x xs)
  show ?case
  proof (cases "getLiveTimeline x = []")
    case True
    then have "lastTs x = None" by (simp add: lastTs_None)
    with snoc True show ?thesis
      by (simp add: getRoomList_def arraySort_snoc sortInsert_no_events)
  next
    case False
    with snoc show ?thesis
      by (simp add: getRoomList_def arraySort_snoc filter_sortInsert_other)
  qed
qed

lemma getRoomList_empty_first:
  "sorted_wrt (\<lambda>a b. getLiveTimeline b = [] \<longrightarrow> getLiveTimeline a = []) (getRoomList rooms)"
proof -
  have "sorted_wrt (\<lambda>a b. lastTs a \<le> lastTs b) (getRoomList rooms)"
    using getRoomList_sorted [of rooms] by (simp add: sorted_wrt_map)
  moreover have "lastTs a \<le> lastTs b \<Longrightarrow> getLiveTimeline b = [] \<longrightarrow> getLiveTimeline a = []" for a b
    unfolding lastTs_None [symmetric] by (cases "lastTs a"; cases "lastTs b") simp_all
  ultimately show ?thesis
    by (rule sorted_wrt_mono_rel [rotated]) simp
qed

lemma empty_first_split:
  "sorted_wrt (\<lambda>a b. P b \<longrightarrow> P a) xs \<Longrightarrow> xs = filter P xs @ filter (\<lambda>x. \<not> P x) xs"
proof (induction xs)
  case Nil
  then show ?case by simp
next
  case (Cons x xs)
  show ?case
  proof (cases "P x")
    case True
    with Cons show ?thesis by simp
  next
    case False
    with Cons.prems have "\<forall>y \<in> set xs. \<not> P y" by auto
    then have "filter P xs = []" by (simp add: filter_empty_conv)
    with False Cons show ?thesis by simp
  qed
qed

lemma getRoomList_strict:
  assumes ne: "\<forall>r \<in> set rooms. getLiveTimeline r \<noteq> []"
    and d: "distinct (map (\<lambda>r. getTs (last (getLiveTimeline r))) rooms)"
  shows "sorted_wrt (<) (map (\<lambda>r. getTs (last (getLiveTimeline r))) (getRoomList rooms))"
proof -
  let ?k = "\<lambda>r. getTs (last (getLiveTimeline r))"
  have set_eq: "set (getRoomList rooms) = set rooms"
    using getRoomList_mset [of rooms] by (rule mset_eq_setD)
  have "mset (map ?k (getRoomList rooms)) = mset (map ?k rooms)"
    by (simp add: getRoomList_mset)
  then have d': "distinct (map ?k (getRoomList rooms))"
    using d by (metis mset_eq_imp_distinct_iff)
  have "sorted_wrt (\<lambda>a b. lastTs a \<le> lastTs b) (getRoomList rooms)"
    using getRoomList_sorted [of rooms] by (simp add: sorted_wrt_map)
  then have "sorted_wrt (\<lambda>a b. ?k a \<le> ?k b) (getRoomList rooms)"
  proof (rule sorted_wrt_mono_rel [rotated])
    fix a b
    assume "a \<in> set (getRoomList rooms)" "b \<in> set (getRoomList rooms)" "lastTs a \<le> lastTs b"
    then show "?k a \<le> ?k b"
      using ne set_eq by (simp add: lastTs_Some)
  qed
  then have "sorted (map ?k (getRoomList rooms))"
    by (simp add: sorted_wrt_map)
  with d' show ?thesis
    by (simp add: strict_sorted_iff)
qed

lemma getRoomList_rooms_with_events:
  "((\<forall>r \<in> set rooms. getLiveTimeline r \<noteq> []) \<and>
      distinct (map (\<lambda>r. getTs (last (getLiveTimeline r))) rooms) \<longrightarrow>
      sorted_wrt (<) (map (\<lambda>r. getTs (last (getLiveTimeline r))) (getRoomList rooms))) \<and>
   getRoomList rooms =
      filter (\<lambda>r. getLiveTimeline r = []) (getRoomList rooms) @
      filter (\<lambda>r. getLiveTimeline r \<noteq> []) (getRoomList rooms) \<and>
   (\<forall>t. filter (\<lambda>r. lastTs r = Some t) (getRoomList rooms) =
        filter (\<lambda>r. lastTs r = Some t) rooms) \<and>
   mset (getRoomList rooms) = mset rooms"
proof (intro conjI impI allI)
  assume "(\<forall>r \<in> set rooms. getLiveTimeline r \<noteq> []) \<and>
      distinct (map (\<lambda>r. getTs (last (getLiveTimeline r))) rooms)"
  then show "sorted_wrt (<) (map (\<lambda>r. getTs (last (getLiveTimeline r))) (getRoomList rooms))"
    by (simp add: getRoomList_strict)
next
  show "getRoomList rooms =
      filter (\<lambda>r. getLiveTimeline r = []) (getRoomList rooms) @
      filter (\<lambda>r. getLiveTimeline r \<noteq> []) (getRoomList rooms)"
    using getRoomList_empty_first [of rooms] by (rule empty_first_split)
next
  fix t
  show "filter (\<lambda>r. lastTs r = Some t) (getRoomList rooms) =
        filter (\<lambda>r. lastTs r = Some t) rooms"
    by (rule getRoomList_stable)
next
  show "mset (getRoomList rooms) = mset rooms"
    by (rule getRoomList_mset)
qed

section \<open>Credential store and session start\<close>

text \<open>
  \<^verbatim>\<open>localStorage\<close>: \<^verbatim>\<open>getItem\<close> is the lookup (\<^verbatim>\<open>null\<close> is \<open>None\<close>), \<^verbatim>\<open>setItem\<close> the update.
\<close>

type_synonym localStorage = "string \<rightharpoonup> string"

text \<open>
  The interfaces \<^verbatim>\<open>PasswordLogin\<close> and \<^verbatim>\<open>TokenLogin\<close>. Both start with \<^verbatim>\<open>baseUrl\<close> and
  \<^verbatim>\<open>userId\<close>, which are declared once here so that the field names stay the source's.
\<close>

record Login =
  baseUrl :: string
  userId :: string

record PasswordLogin = Login +
  password :: string

record TokenLogin = Login +
  accessToken :: string
  deviceId :: string

text \<open>The fields that \<^verbatim>\<open>getTokenLogin\<close> reads from the response of \<^verbatim>\<open>loginClient.login\<close>.\<close>

record LoginResponse =
  access_token :: string
  device_id :: string

text \<open>
  What can end the program early: the error that \<^verbatim>\<open>startWithToken\<close> throws, the rejection
  of a promise of the client library (with its message), an error thrown by a call into
  the library (with its message), and the \<^verbatim>\<open>TypeError\<close> of the runtime on a call through
  \<^verbatim>\<open>undefined\<close>.
\<close>

datatype fault = SyncFailed | Rejected string | Thrown string | TypeError

text \<open>A client is represented by the options it was created with.\<close>

record MatrixClient =
  credentials :: TokenLogin

text \<open>The calls that \<^verbatim>\<open>start\<close> makes on the outside world, in the order it makes them.\<close>

datatype effect =
    LoginWithPassword string string string
  | StopClient
  | SetItem string string
  | CreateClient TokenLogin
  | InitRustCrypto
  | StartClient nat

text \<open>
  \<^verbatim>\<open>startWithToken\<close>; \<open>state\<close> is the state carried by the first \<^verbatim>\<open>Sync\<close> event.
\<close>

definition startWithToken :: "string \<Rightarrow> TokenLogin \<Rightarrow> (fault + MatrixClient) \<times> effect list" where
  "startWithToken state tokenLogin =
     (if state \<noteq> ''PREPARED'' then Inl SyncFailed else Inr \<lparr>credentials = tokenLogin\<rparr>,
      [CreateClient tokenLogin, InitRustCrypto, StartClient 5])"

text \<open>
  \<^verbatim>\<open>getTokenLogin\<close>; \<open>login\<close> is the homeserver's answer to a password login. A rejected
  login rejects the promise of \<^verbatim>\<open>getTokenLogin\<close> before \<^verbatim>\<open>stopClient\<close> is reached.
\<close>

definition getTokenLogin ::
  "(PasswordLogin \<Rightarrow> fault + LoginResponse) \<Rightarrow> PasswordLogin \<Rightarrow> (fault + TokenLogin) \<times> effect list" where
  "getTokenLogin login passwordLogin =
     (case login passwordLogin of
        Inl e \<Rightarrow>
          (Inl e, [LoginWithPassword (baseUrl passwordLogin) (userId passwordLogin) (password passwordLogin)])
      | Inr response \<Rightarrow>
          (Inr \<lparr>baseUrl = baseUrl passwordLogin, userId = userId passwordLogin,
                accessToken = access_token response, deviceId = device_id response\<rparr>,
           [LoginWithPassword (baseUrl passwordLogin) (userId passwordLogin) (password passwordLogin),
            StopClient]))"

definition tokenKey :: "string \<Rightarrow> string" where
  "tokenKey u = ''token-'' @ u"

definition deviceKey :: "string \<Rightarrow> string" where
  "deviceKey u = ''device-'' @ u"

text \<open>
  \<^verbatim>\<open>start\<close>: the result of the promise, the storage it leaves and the calls it made.
\<close>

definition start ::
  "(PasswordLogin \<Rightarrow> fault + LoginResponse) \<Rightarrow> string \<Rightarrow> PasswordLogin \<Rightarrow> localStorage
     \<Rightarrow> (fault + MatrixClient) \<times> localStorage \<times> effect list" where
  "start login state passwordLogin storage =
     (let storedToken = storage (tokenKey (userId passwordLogin));
          storedDevice = storage (deviceKey (userId passwordLogin)) in
      if storedToken = None \<or> storedDevice = None then
        (case getTokenLogin login passwordLogin of
           (Inl e, effs) \<Rightarrow> (Inl e, storage, effs)
         | (Inr tokenLogin, effs) \<Rightarrow>
             (let storage1 = storage(tokenKey (userId passwordLogin) \<mapsto> accessToken tokenLogin);
                  storage2 = storage1(deviceKey (userId passwordLogin) \<mapsto> deviceId tokenLogin);
                  (client, effs') = startWithToken state tokenLogin
              in (client, storage2,
                  effs @ [SetItem (tokenKey (userId passwordLogin)) (accessToken tokenLogin),
                          SetItem (deviceKey (userId passwordLogin)) (deviceId tokenLogin)] @ effs')))
      else
        (let tokenLogin = \<lparr>baseUrl = baseUrl passwordLogin, userId = userId passwordLogin,
                            accessToken = the storedToken, deviceId = the storedDevice\<rparr>;
             (client, effs') = startWithToken state tokenLogin
         in (client, storage, effs')))"

text \<open>
  The storage as it is after a sequence of calls. A run that stops after the first \<open>n\<close>
  calls of \<^verbatim>\<open>start\<close> leaves \<open>storageAfter (take n effs) storage\<close> to the next run.
\<close>

fun applyEffect :: "effect \<Rightarrow> localStorage \<Rightarrow> localStorage" where
  "applyEffect (SetItem k v) storage = storage(k \<mapsto> v)"
| "applyEffect _ storage = storage"

definition storageAfter :: "effect list \<Rightarrow> localStorage \<Rightarrow> localStorage" where
  "storageAfter effs storage = fold applyEffect effs storage"

fun isLogin :: "effect \<Rightarrow> bool" where
  "isLogin (LoginWithPassword _ _ _) = True"
| "isLogin _ = False"

lemma key_distinct: "tokenKey u \<noteq> deviceKey v"
  by (simp add: tokenKey_def deviceKey_def)

lemma start_storage_replay:
  "start login state pl storage = (r, storage', effs) \<Longrightarrow> storage' = storageAfter effs storage"
  by (auto simp: start_def getTokenLogin_def startWithToken_def storageAfter_def Let_def
      split: if_splits sum.splits)

text \<open>A concrete world: the user, the homeserver's answer and two stores.\<close>

definition emil :: PasswordLogin where
  "emil = \<lparr>baseUrl = ''https://matrix.org'', userId = ''@emil:matrix.org'', password = ''secret''\<rparr>"

definition loginOk :: "PasswordLogin \<Rightarrow> fault + LoginResponse" where
  "loginOk pl = Inr \<lparr>access_token = ''abc'', device_id = ''DEV1''\<rparr>"

definition loginRejected :: "PasswordLogin \<Rightarrow> fault + LoginResponse" where
  "loginRejected pl = Inl (Rejected ''M_FORBIDDEN'')"

definition emptyStorage :: localStorage where
  "emptyStorage = Map.empty"

definition fullStorage :: localStorage where
  "fullStorage = [''token-@emil:matrix.org'' \<mapsto> ''tok0'', ''device-@emil:matrix.org'' \<mapsto> ''DEV0'']"

definition tokenOnlyStorage :: localStorage where
  "tokenOnlyStorage = [''token-@emil:matrix.org'' \<mapsto> ''tok0'']"

definition deviceOnlyStorage :: localStorage where
  "deviceOnlyStorage = [''device-@emil:matrix.org'' \<mapsto> ''DEV0'']"

text \<open>
  Claim C2. When the storage holds a token entry and a device entry for the user,
  \<^verbatim>\<open>start\<close> makes no password login, leaves the storage as it is and creates the client
  with the stored access token and the stored device id; its only calls are those of
  \<^verbatim>\<open>startWithToken\<close>.
\<close>

theorem start_fast_path:
  assumes "storage (tokenKey (userId pl)) = Some tok"
    and "storage (deviceKey (userId pl)) = Some dev"
  shows "start login state pl storage =
           (if state \<noteq> ''PREPARED'' then Inl SyncFailed
            else Inr \<lparr>credentials = \<lparr>baseUrl = baseUrl pl, userId = userId pl,
                                       accessToken = tok, deviceId = dev\<rparr>\<rparr>,
            storage,
            [CreateClient \<lparr>baseUrl = baseUrl pl, userId = userId pl, accessToken = tok, deviceId = dev\<rparr>,
             InitRustCrypto, StartClient 5]) \<and>
         \<not> list_ex isLogin (snd (snd (start login state pl storage)))"
  using assms by (simp add: start_def startWithToken_def Let_def)

theorem start_fast_path_witness:
  "fullStorage (tokenKey (userId emil)) = Some ''tok0'' \<and>
   fullStorage (deviceKey (userId emil)) = Some ''DEV0'' \<and>
   start loginRejected ''PREPARED'' emil fullStorage =
     (Inr \<lparr>credentials = \<lparr>baseUrl = ''https://matrix.org'', userId = ''@emil:matrix.org'',
                            accessToken = ''tok0'', deviceId = ''DEV0''\<rparr>\<rparr>,
      fullStorage,
      [CreateClient \<lparr>baseUrl = ''https://matrix.org'', userId = ''@emil:matrix.org'',
                     accessToken = ''tok0'', deviceId = ''DEV0''\<rparr>,
       InitRustCrypto, StartClient 5])"
proof -
  have t: "fullStorage (tokenKey (userId emil)) = Some ''tok0''"
    by (simp add: fullStorage_def tokenKey_def emil_def)
  have d: "fullStorage (deviceKey (userId emil)) = Some ''DEV0''"
    by (simp add: fullStorage_def deviceKey_def emil_def)
  from start_fast_path [OF t d, of loginRejected "''PREPARED''"] t d
  show ?thesis by (simp add: emil_def)
qed

text \<open>
  Claim C10. When exactly one of the two entries is absent, \<^verbatim>\<open>start\<close> begins with the
  password login. Once the login has returned a response, both entries are overwritten
  with the response's token and device id and the client is created with that pair. A
  rejected login rejects \<^verbatim>\<open>start\<close> with the storage untouched and no client created.
  In neither case is a client created from the stored entry.
\<close>

theorem start_half_pair:
  assumes "(storage (tokenKey (userId pl)) = None) \<noteq> (storage (deviceKey (userId pl)) = None)"
  shows "start login state pl storage =
          (case login pl of
             Inl e \<Rightarrow>
               (Inl e, storage, [LoginWithPassword (baseUrl pl) (userId pl) (password pl)])
           | Inr response \<Rightarrow>
               (if state \<noteq> ''PREPARED'' then Inl SyncFailed
                else Inr \<lparr>credentials = \<lparr>baseUrl = baseUrl pl, userId = userId pl,
                       accessToken = access_token response, deviceId = device_id response\<rparr>\<rparr>,
                storage(tokenKey (userId pl) \<mapsto> access_token response,
                        deviceKey (userId pl) \<mapsto> device_id response),
                [LoginWithPassword (baseUrl pl) (userId pl) (password pl), StopClient,
                 SetItem (tokenKey (userId pl)) (access_token response),
                 SetItem (deviceKey (userId pl)) (device_id response),
                 CreateClient \<lparr>baseUrl = baseUrl pl, userId = userId pl,
                       accessToken = access_token response, deviceId = device_id response\<rparr>,
                 InitRustCrypto, StartClient 5]))"
  using assms by (auto simp: start_def getTokenLogin_def startWithToken_def Let_def split: sum.splits)

theorem start_half_pair_witness:
  "(tokenOnlyStorage (tokenKey (userId emil)) = None) \<noteq> (tokenOnlyStorage (deviceKey (userId emil)) = None) \<and>
   start loginOk ''PREPARED'' emil tokenOnlyStorage =
     (Inr \<lparr>credentials = \<lparr>baseUrl = ''https://matrix.org'', userId = ''@emil:matrix.org'',
                            accessToken = ''abc'', deviceId = ''DEV1''\<rparr>\<rparr>,
      tokenOnlyStorage(tokenKey ''@emil:matrix.org'' \<mapsto> ''abc'', deviceKey ''@emil:matrix.org'' \<mapsto> ''DEV1''),
      [LoginWithPassword ''https://matrix.org'' ''@emil:matrix.org'' ''secret'', StopClient,
       SetItem (tokenKey ''@emil:matrix.org'') ''abc'', SetItem (deviceKey ''@emil:matrix.org'') ''DEV1'',
       CreateClient \<lparr>baseUrl = ''https://matrix.org'', userId = ''@emil:matrix.org'',
                     accessToken = ''abc'', deviceId = ''DEV1''\<rparr>,
       InitRustCrypto, StartClient 5])"
proof -
  have h: "(tokenOnlyStorage (tokenKey (userId emil)) = None) \<noteq> (tokenOnlyStorage (deviceKey (userId emil)) = None)"
    by (simp add: tokenOnlyStorage_def tokenKey_def deviceKey_def emil_def)
  have "start loginOk ''PREPARED'' emil tokenOnlyStorage =
     (Inr \<lparr>credentials = \<lparr>baseUrl = ''https://matrix.org'', userId = ''@emil:matrix.org'',
                            accessToken = ''abc'', deviceId = ''DEV1''\<rparr>\<rparr>,
      tokenOnlyStorage(tokenKey ''@emil:matrix.org'' \<mapsto> ''abc'', deviceKey ''@emil:matrix.org'' \<mapsto> ''DEV1''),
      [LoginWithPassword ''https://matrix.org'' ''@emil:matrix.org'' ''secret'', StopClient,
       SetItem (tokenKey ''@emil:matrix.org'') ''abc'', SetItem (deviceKey ''@emil:matrix.org'') ''DEV1'',
       CreateClient \<lparr>baseUrl = ''https://matrix.org'', userId = ''@emil:matrix.org'',
                     accessToken = ''abc'', deviceId = ''DEV1''\<rparr>,
       InitRustCrypto, StartClient 5])"
    unfolding start_half_pair [OF h, of loginOk "''PREPARED''"]
    by (simp add: emil_def loginOk_def)
  with h show ?thesis by (rule conjI)
qed

text \<open>
  Claim C3, as stated, fails: the two entries are written by two separate calls. From the
  empty storage, a run that stops after the first \<^verbatim>\<open>setItem\<close> leaves the token entry
  without a device entry. From a storage that holds only a device entry, it leaves the new
  token next to the old device id, and the next run creates its client from that pair
  without logging in.
\<close>

theorem start_writes_not_atomic:
  "storageAfter (take 3 (snd (snd (start loginOk ''PREPARED'' emil emptyStorage)))) emptyStorage
     (tokenKey (userId emil)) = Some ''abc'' \<and>
   storageAfter (take 3 (snd (snd (start loginOk ''PREPARED'' emil emptyStorage)))) emptyStorage
     (deviceKey (userId emil)) = None \<and>
   storageAfter (take 3 (snd (snd (start loginOk ''PREPARED'' emil deviceOnlyStorage)))) deviceOnlyStorage
     = deviceOnlyStorage(tokenKey (userId emil) \<mapsto> ''abc'') \<and>
   snd (snd (start loginOk ''PREPARED'' emil (deviceOnlyStorage(tokenKey (userId emil) \<mapsto> ''abc'')))) =
     [CreateClient \<lparr>baseUrl = ''https://matrix.org'', userId = ''@emil:matrix.org'',
                    accessToken = ''abc'', deviceId = ''DEV0''\<rparr>,
      InitRustCrypto, StartClient 5]"
  by (simp add: start_def getTokenLogin_def startWithToken_def storageAfter_def Let_def
      loginOk_def emil_def emptyStorage_def deviceOnlyStorage_def tokenKey_def deviceKey_def)

text \<open>
  Claim C3, amended. On the fresh-authentication path, once the login has returned,
  \<^verbatim>\<open>start\<close> writes the token entry and then the device entry, both from that one
  response, before it creates the client, and the storage it leaves holds the pair.
  Between the two writes the storage holds the new token and the device entry it had
  before. When the device entry was absent before, a run started on that storage logs in
  again.
\<close>

theorem start_writes_pair:
  assumes "storage (tokenKey (userId pl)) = None \<or> storage (deviceKey (userId pl)) = None"
    and "login pl = Inr response"
  shows "snd (snd (start login state pl storage)) =
           [LoginWithPassword (baseUrl pl) (userId pl) (password pl), StopClient,
            SetItem (tokenKey (userId pl)) (access_token response),
            SetItem (deviceKey (userId pl)) (device_id response),
            CreateClient \<lparr>baseUrl = baseUrl pl, userId = userId pl,
                  accessToken = access_token response, deviceId = device_id response\<rparr>,
            InitRustCrypto, StartClient 5] \<and>
         storageAfter (take 3 (snd (snd (start login state pl storage)))) storage =
           storage(tokenKey (userId pl) \<mapsto> access_token response) \<and>
         storageAfter (take 4 (snd (snd (start login state pl storage)))) storage =
           storage(tokenKey (userId pl) \<mapsto> access_token response,
                   deviceKey (userId pl) \<mapsto> device_id response) \<and>
         fst (snd (start login state pl storage)) =
           storage(tokenKey (userId pl) \<mapsto> access_token response,
                   deviceKey (userId pl) \<mapsto> device_id response) \<and>
         (storage (deviceKey (userId pl)) = None \<longrightarrow>
            list_ex isLogin (snd (snd (start login' state' pl
              (storage(tokenKey (userId pl) \<mapsto> access_token response))))))"
proof -
  have effs: "snd (snd (start login state pl storage)) =
           [LoginWithPassword (baseUrl pl) (userId pl) (password pl), StopClient,
            SetItem (tokenKey (userId pl)) (access_token response),
            SetItem (deviceKey (userId pl)) (device_id response),
            CreateClient \<lparr>baseUrl = baseUrl pl, userId = userId pl,
                  accessToken = access_token response, deviceId = device_id response\<rparr>,
            InitRustCrypto, StartClient 5]"
    using assms by (auto simp: start_def getTokenLogin_def startWithToken_def Let_def)
  have final: "fst (snd (start login state pl storage)) =
           storage(tokenKey (userId pl) \<mapsto> access_token response,
                   deviceKey (userId pl) \<mapsto> device_id response)"
    using assms by (auto simp: start_def getTokenLogin_def startWithToken_def Let_def)
  have again: "list_ex isLogin (snd (snd (start login' state' pl
              (storage(tokenKey (userId pl) \<mapsto> access_token response)))))"
    if "storage (deviceKey (userId pl)) = None"
    using that key_distinct [of "userId pl" "userId pl"]
    by (cases "login' pl")
      (auto simp: start_def getTokenLogin_def startWithToken_def Let_def)
  show ?thesis
    using again by (simp add: effs final storageAfter_def)
qed

theorem start_writes_pair_witness:
  "(emptyStorage (tokenKey (userId emil)) = None \<or> emptyStorage (deviceKey (userId emil)) = None) \<and>
   loginOk emil = Inr \<lparr>access_token = ''abc'', device_id = ''DEV1''\<rparr> \<and>
   emptyStorage (deviceKey (userId emil)) = None \<and>
   fst (snd (start loginOk ''PREPARED'' emil emptyStorage)) =
     emptyStorage(tokenKey (userId emil) \<mapsto> ''abc'', deviceKey (userId emil) \<mapsto> ''DEV1'') \<and>
   list_ex isLogin (snd (snd (start loginRejected ''PREPARED'' emil
     (emptyStorage(tokenKey (userId emil) \<mapsto> ''abc'')))))"
proof -
  have h1: "emptyStorage (tokenKey (userId emil)) = None \<or> emptyStorage (deviceKey (userId emil)) = None"
    by (simp add: emptyStorage_def)
  have h2: "loginOk emil = Inr \<lparr>access_token = ''abc'', device_id = ''DEV1''\<rparr>"
    by (simp add: loginOk_def)
  have h3: "emptyStorage (deviceKey (userId emil)) = None"
    by (simp add: emptyStorage_def)
  from start_writes_pair [where storage = emptyStorage and pl = emil and login = loginOk
      and response = "\<lparr>access_token = ''abc'', device_id = ''DEV1''\<rparr>"
      and state = "''PREPARED''" and login' = loginRejected and state' = "''PREPARED''", OF h1 h2]
    h1 h2 h3
  show ?thesis by simp
qed

section \<open>The timeline handler and the scrollback callback\<close>

text \<open>
  A line written by \<^verbatim>\<open>console.log\<close>, kept together with the identity of the event it was
  written for: the content of an event, or the body of a text message.
\<close>

datatype line = ContentLine string Content | BodyLine string "string option"

text \<open>
  The handler registered for \<^verbatim>\<open>RoomEvent.Timeline\<close>. \<^verbatim>\<open>client.decryptEventIfNeeded\<close> is
  the library's: it updates the event in place, so it is a parameter that returns the
  event as it is afterwards.
\<close>

definition onTimeline :: "(MatrixEvent \<Rightarrow> MatrixEvent) \<Rightarrow> MatrixEvent \<Rightarrow> line list" where
  "onTimeline decryptEventIfNeeded event =
     (if getType event \<noteq> RoomMessage \<and> getType event \<noteq> RoomMessageEncrypted then []
      else
        (let event' = decryptEventIfNeeded event;
             content = getContent event'
         in [ContentLine (eventId event) content] @
            (if msgtype content = Some Text then [BodyLine (eventId event) (body content)] else [])))"

text \<open>The callback of \<^verbatim>\<open>client.scrollback(emilroom, 100).then\<close>.\<close>

definition onScrollback :: "Room \<Rightarrow> line list" where
  "onScrollback emilRoom =
     concat (map (\<lambda>event.
        if getType event = RoomMessage \<or> getType event = RoomMessageEncrypted
        then [ContentLine (eventId event) (getContent event)] else [])
      (getLiveTimeline emilRoom))"

text \<open>
  What reaches the program after the handler is registered: an event on a timeline, or
  the room with which the scrollback promise resolves. \<open>run\<close> is everything that is
  written for a sequence of deliveries.
\<close>

datatype delivery = Live MatrixEvent | Backfill Room

fun deliver :: "(MatrixEvent \<Rightarrow> MatrixEvent) \<Rightarrow> delivery \<Rightarrow> line list" where
  "deliver decryptEventIfNeeded (Live event) = onTimeline decryptEventIfNeeded event"
| "deliver decryptEventIfNeeded (Backfill emilRoom) = onScrollback emilRoom"

definition run :: "(MatrixEvent \<Rightarrow> MatrixEvent) \<Rightarrow> delivery list \<Rightarrow> line list" where
  "run decryptEventIfNeeded ds = concat (map (deliver decryptEventIfNeeded) ds)"

text \<open>The events a sequence of deliveries presents, and how often an event is dispatched.\<close>

fun presented :: "delivery \<Rightarrow> MatrixEvent list" where
  "presented (Live event) = [event]"
| "presented (Backfill emilRoom) = getLiveTimeline emilRoom"

fun dispatchOf :: "string \<Rightarrow> line \<Rightarrow> bool" where
  "dispatchOf i (ContentLine j c) = (i = j)"
| "dispatchOf i (BodyLine j b) = False"

definition dispatches :: "string \<Rightarrow> line list \<Rightarrow> nat" where
  "dispatches i ls = length (filter (dispatchOf i) ls)"

definition isMessage :: "MatrixEvent \<Rightarrow> bool" where
  "isMessage event = (getType event = RoomMessage \<or> getType event = RoomMessageEncrypted)"

lemma dispatches_append: "dispatches i (xs @ ys) = dispatches i xs + dispatches i ys"
  by (simp add: dispatches_def)

lemma dispatches_onTimeline:
  "dispatches i (onTimeline d event) = (if eventId event = i \<and> isMessage event then 1 else 0)"
  by (auto simp: dispatches_def onTimeline_def isMessage_def Let_def)

lemma dispatches_scan:
  "dispatches i (concat (map (\<lambda>event.
        if getType event = RoomMessage \<or> getType event = RoomMessageEncrypted
        then [ContentLine (eventId event) (getContent event)] else []) evs))
   = length (filter (\<lambda>e. eventId e = i \<and> isMessage e) evs)"
  by (induction evs) (auto simp: dispatches_def isMessage_def)

lemma dispatches_deliver:
  "dispatches i (deliver d x) = length (filter (\<lambda>e. eventId e = i \<and> isMessage e) (presented x))"
  by (cases x) (simp_all add: dispatches_onTimeline onScrollback_def dispatches_scan)

text \<open>Concrete events: a plain message, and an encrypted one with what decrypting it gives.\<close>

definition plainEvent :: MatrixEvent where
  "plainEvent = \<lparr>eventId = ''$live150'', getType = RoomMessage,
     getContent = \<lparr>msgtype = Some Text, body = Some ''hello'', ciphertext = None\<rparr>, getTs = 150\<rparr>"

definition encryptedEvent :: MatrixEvent where
  "encryptedEvent = \<lparr>eventId = ''$old100'', getType = RoomMessageEncrypted,
     getContent = \<lparr>msgtype = None, body = None, ciphertext = Some ''AwgAEnACgAkLmt6q''\<rparr>, getTs = 100\<rparr>"

definition decryptOk :: "MatrixEvent \<Rightarrow> MatrixEvent" where
  "decryptOk event =
     (if getType event = RoomMessageEncrypted
      then event\<lparr>getType := RoomMessage,
                 getContent := \<lparr>msgtype = Some Text, body = Some ''secret text'', ciphertext = None\<rparr>\<rparr>
      else event)"

definition emilRoomOf :: "MatrixEvent list \<Rightarrow> Room" where
  "emilRoomOf evs = \<lparr>roomId = ''!emil:matrix.org'', name = ''Emil'', getLiveTimeline = evs\<rparr>"

text \<open>
  Claim C4 fails on the code. For an encrypted event that has not been decrypted, the
  timeline handler writes the decrypted content (and its body); the scrollback callback
  passes the same filter but writes the content as it is, the ciphertext: it never calls
  \<^verbatim>\<open>decryptEventIfNeeded\<close>.
\<close>

theorem scrollback_dispatches_ciphertext:
  "onTimeline decryptOk encryptedEvent =
     [ContentLine ''$old100'' \<lparr>msgtype = Some Text, body = Some ''secret text'', ciphertext = None\<rparr>,
      BodyLine ''$old100'' (Some ''secret text'')] \<and>
   onScrollback (emilRoomOf [encryptedEvent]) =
     [ContentLine ''$old100'' \<lparr>msgtype = None, body = None, ciphertext = Some ''AwgAEnACgAkLmt6q''\<rparr>]"
  by (simp add: onTimeline_def onScrollback_def decryptOk_def encryptedEvent_def emilRoomOf_def)

text \<open>
  The part of C4 that the code keeps: the scrollback callback writes one line for each
  event of a message type in the timeline, in timeline order, and nothing else.
\<close>

lemma onScrollback_filter:
  "onScrollback emilRoom =
     map (\<lambda>event. ContentLine (eventId event) (getContent event))
       (filter isMessage (getLiveTimeline emilRoom))"
proof -
  have "concat (map (\<lambda>event.
        if getType event = RoomMessage \<or> getType event = RoomMessageEncrypted
        then [ContentLine (eventId event) (getContent event)] else []) evs)
     = map (\<lambda>event. ContentLine (eventId event) (getContent event)) (filter isMessage evs)" for evs
    by (induction evs) (simp_all add: isMessage_def)
  then show ?thesis by (simp add: onScrollback_def)
qed

text \<open>
  Claim C5, as stated, fails: an event that arrives live and is in the room's timeline
  when the scrollback promise resolves is written by the handler and again by the
  callback.
\<close>

theorem live_then_backfill_dispatches_twice:
  "dispatches ''$live150''
     (run decryptOk [Live plainEvent, Backfill (emilRoomOf [encryptedEvent, plainEvent])]) = 2"
  by (simp add: run_def dispatches_def onTimeline_def onScrollback_def decryptOk_def
      plainEvent_def encryptedEvent_def emilRoomOf_def)

text \<open>
  Claim C5, amended. Nothing is deduplicated: an event is dispatched exactly as often as
  it is presented as an event of a message type, counting each live delivery and each
  occurrence in a timeline that the scrollback callback scans.
\<close>

theorem dispatches_run:
  "dispatches i (run d ds) =
     length (filter (\<lambda>e. eventId e = i \<and> isMessage e) (concat (map presented ds)))"
proof (induction ds)
  case Nil
  show ?case by (simp add: run_def dispatches_def)
next
  case (Cons x ds)
  have "dispatches i (run d (x # ds)) = dispatches i (deliver d x) + dispatches i (run d ds)"
    by (simp add: run_def dispatches_append)
  with Cons show ?case
    by (simp add: dispatches_deliver)
qed

section \<open>The top-level script: key backup, verification, backfill\<close>

text \<open>
  Modelled from the spec: \<^verbatim>\<open>VerificationPhase\<close> is an enum of the client library that the
  script compares with \<^verbatim>\<open><\<close>. The spec gives its values in order:
  \<^verbatim>\<open>Unrequested, Requested, Ready, Started\<close>, then the terminal ones.
\<close>

datatype VerificationPhase =
  Unrequested | Requested | Ready | Started | Confirmed | Cancelled | Mismatched

fun phaseRank :: "VerificationPhase \<Rightarrow> nat" where
  "phaseRank Unrequested = 1"
| "phaseRank Requested = 2"
| "phaseRank Ready = 3"
| "phaseRank Started = 4"
| "phaseRank Confirmed = 5"
| "phaseRank Cancelled = 6"
| "phaseRank Mismatched = 7"

text \<open>
  What the script does to the outside world, in order. \<open>Verify\<close> is the call
  \<^verbatim>\<open>verifier.verify()\<close>, whose promise is kept in \<^verbatim>\<open>wait\<close>; \<open>AwaitVerify\<close> is
  \<^verbatim>\<open>await wait\<close>. \<open>Confirm\<close> is \<^verbatim>\<open>await sas.confirm()\<close>; \<open>Mismatch\<close> is the call
  \<^verbatim>\<open>sas.mismatch()\<close>, which is not awaited and returns or throws. \<open>Log\<close> carries the fixed text of
  a \<^verbatim>\<open>console.log\<close>, \<open>Print\<close> a line written by the scrollback callback.
\<close>

datatype action =
    Log string
  | CheckKeyBackupAndEnable
  | GetUserVerificationStatus
  | RequestOwnUserVerification
  | Sleep nat
  | Verify
  | GetShowSasCallbacks
  | Prompt string
  | Mismatch
  | Confirm
  | AwaitVerify
  | Exit int
  | OnTimeline
  | Scrollback "Room option" nat
  | Print line

text \<open>
  How a piece of the script ends: it goes on with a value, the process exits with a
  status, or an error is thrown that nothing catches (the script has no \<^verbatim>\<open>try\<close> and
  no \<^verbatim>\<open>catch\<close>). A piece that never ends is \<open>None\<close>.
\<close>

datatype 'a ending = Return 'a | Exited int | Threw fault

type_synonym 'a proc = "(action list \<times> 'a ending) option"

fun andThen :: "'a proc \<Rightarrow> ('a \<Rightarrow> 'b proc) \<Rightarrow> 'b proc" where
  "andThen None f = None"
| "andThen (Some (t, Return x)) f =
     (case f x of None \<Rightarrow> None | Some (t', r) \<Rightarrow> Some (t @ t', r))"
| "andThen (Some (t, Exited n)) f = Some (t, Exited n)"
| "andThen (Some (t, Threw e)) f = Some (t, Threw e)"

definition act :: "action \<Rightarrow> unit proc" where
  "act a = Some ([a], Return ())"

definition skip :: "unit proc" where
  "skip = Some ([], Return ())"

text \<open>\<^verbatim>\<open>await\<close> of a promise of the library: a rejection is thrown.\<close>

definition await :: "action \<Rightarrow> fault + 'a \<Rightarrow> 'a proc" where
  "await a r = (case r of Inl e \<Rightarrow> Some ([a], Threw e) | Inr x \<Rightarrow> Some ([a], Return x))"

text \<open>A call into the library that is not awaited: it returns or it throws.\<close>

definition call :: "action \<Rightarrow> fault + 'a \<Rightarrow> 'a proc" where
  "call a r = (case r of Inl e \<Rightarrow> Some ([a], Threw e) | Inr x \<Rightarrow> Some ([a], Return x))"

definition exit :: "int \<Rightarrow> unit proc" where
  "exit n = Some ([Exit n], Exited n)"

text \<open>
  The answers of the outside world to one run of the script: the results of the two
  key-backup calls, of the status query and of the verification request; the value of
  \<^verbatim>\<open>verReq.phase\<close> at the \<open>k\<close>-th test of the loop; whether \<^verbatim>\<open>verReq.verifier\<close> and
  \<^verbatim>\<open>getShowSasCallbacks()\<close> are there; the answer to the prompt (\<^verbatim>\<open>null\<close> is \<open>None\<close>);
  what the call \<^verbatim>\<open>mismatch()\<close> does; the results of \<^verbatim>\<open>confirm()\<close> and of the promise of
  \<^verbatim>\<open>verify()\<close>; the rooms of the
  store and what \<^verbatim>\<open>client.scrollback\<close> does with the room it is given.
\<close>

record world =
  backupBefore :: "fault + unit"
  isVerified :: "fault + bool"
  requested :: "fault + unit"
  phase :: "nat \<Rightarrow> VerificationPhase"
  verifierBound :: bool
  showSas :: bool
  input :: "string option"
  mismatched :: "fault + unit"
  confirmed :: "fault + unit"
  verified :: "fault + unit"
  backupAfter :: "fault + unit"
  rooms :: "Room list"
  scrollback :: "Room option \<Rightarrow> fault + Room"

text \<open>
  \<^verbatim>\<open>while (verReq.phase < VerificationPhase.Started)\<close>: the number of rounds after which
  the loop ends, if it ends. Each round sleeps a second and logs.
\<close>

partial_function (option) pollPhase :: "(nat \<Rightarrow> VerificationPhase) \<Rightarrow> nat \<Rightarrow> nat option" where
  "pollPhase ph k =
     (if phaseRank (ph k) < phaseRank Started then pollPhase ph (Suc k) else Some k)"

definition pending :: "nat \<Rightarrow> action list" where
  "pending k = concat (replicate k [Sleep 1000, Log ''Pending''])"

definition awaitStarted :: "world \<Rightarrow> unit proc" where
  "awaitStarted w =
     (case pollPhase (phase w) 0 of None \<Rightarrow> None | Some k \<Rightarrow> Some (pending k, Return ()))"

text \<open>Lines 183 to 191: the prompt and the branch on its answer.\<close>

definition sasDecision :: "world \<Rightarrow> unit proc" where
  "sasDecision w =
     andThen (act (Prompt ''Accept? [y/n]'')) (\<lambda>_.
       if input w \<noteq> Some ''y'' then
         andThen (act (Log ''Aborting'')) (\<lambda>_.
         andThen (if showSas w then call Mismatch (mismatched w) else skip) (\<lambda>_.
         exit 0))
       else
         andThen (if showSas w then await Confirm (confirmed w) else skip) (\<lambda>_.
         act (Log ''Accepted'')))"

text \<open>Lines 169 to 192: the body of \<^verbatim>\<open>if (!verstatus.isVerified())\<close>.\<close>

definition verifyOwnUser :: "world \<Rightarrow> unit proc" where
  "verifyOwnUser w =
     andThen (await RequestOwnUserVerification (requested w)) (\<lambda>_.
     andThen (act (Log ''CRYPTO BOOTSTRAPPED'')) (\<lambda>_.
     andThen (awaitStarted w) (\<lambda>_.
     andThen (act (Log ''Done'')) (\<lambda>_.
     andThen (if verifierBound w then act Verify else Some ([], Threw TypeError)) (\<lambda>_.
     andThen (act (Sleep 1000)) (\<lambda>_.
     andThen (act GetShowSasCallbacks) (\<lambda>_.
     andThen (act (Log ''Emojis:'')) (\<lambda>_.
     andThen (sasDecision w) (\<lambda>_.
     await AwaitVerify (verified w))))))))))"

text \<open>Lines 160 to 193: everything before the second key-backup call.\<close>

definition bootstrap :: "world \<Rightarrow> unit proc" where
  "bootstrap w =
     andThen (act (Log ''CRYPTO BOOTSTRAPPING'')) (\<lambda>_.
     andThen (await CheckKeyBackupAndEnable (backupBefore w)) (\<lambda>_.
     andThen (await GetUserVerificationStatus (isVerified w)) (\<lambda>alreadyVerified.
     andThen (act (Log ''OWN verify status:'')) (\<lambda>_.
     if \<not> alreadyVerified then verifyOwnUser w else skip))))"

text \<open>
  Lines 217 to 231: \<^verbatim>\<open>find\<close> gives \<^verbatim>\<open>undefined\<close> (\<open>None\<close>) when no room has the name; the
  \<^verbatim>\<open>!\<close> after it is erased by the compiler, so \<^verbatim>\<open>scrollback\<close> is called with whatever
  \<^verbatim>\<open>find\<close> gave.
\<close>

definition backfill :: "world \<Rightarrow> unit proc" where
  "backfill w =
     (let emilroom = find (\<lambda>r. name r = ''Emil'') (rooms w) in
      andThen (await (Scrollback emilroom 100) (scrollback w emilroom)) (\<lambda>emilRoom.
        Some (map Print (onScrollback emilRoom), Return ())))"

text \<open>Lines 195 to 231: what follows the verification.\<close>

definition afterVerification :: "world \<Rightarrow> unit proc" where
  "afterVerification w =
     andThen (await CheckKeyBackupAndEnable (backupAfter w)) (\<lambda>_.
     andThen (act OnTimeline) (\<lambda>_.
     backfill w))"

text \<open>Lines 160 to 231.\<close>

definition script :: "world \<Rightarrow> unit proc" where
  "script w = andThen (bootstrap w) (\<lambda>_. afterVerification w)"

text \<open>
  The runs in which the user is asked: both calls before the verification request and
  the request itself succeed, the user is not yet verified, the polling loop ends and
  the request has a verifier.
\<close>

definition reachesPrompt :: "world \<Rightarrow> bool" where
  "reachesPrompt w =
     (backupBefore w = Inr () \<and> isVerified w = Inr False \<and> requested w = Inr () \<and>
      pollPhase (phase w) 0 \<noteq> None \<and> verifierBound w)"

lemma pending_Suc: "pending (Suc k) = Sleep 1000 # Log ''Pending'' # pending k"
  by (simp add: pending_def)

lemma pending_0: "pending 0 = []"
  by (simp add: pending_def)

lemma pending_set: "set (pending k) \<subseteq> {Sleep 1000, Log ''Pending''}"
  by (induction k) (auto simp: pending_0 pending_Suc)

lemma pending_no_backup: "count_list (pending k) CheckKeyBackupAndEnable = 0"
  by (induction k) (simp_all add: pending_0 pending_Suc)

lemma pending_notin:
  "Prompt p \<notin> set (pending k)" "Confirm \<notin> set (pending k)" "AwaitVerify \<notin> set (pending k)"
  "Mismatch \<notin> set (pending k)" "Exit n \<notin> set (pending k)"
  using pending_set [of k] by auto

text \<open>Library behaviour used in the examples: \<^verbatim>\<open>scrollback\<close> on \<^verbatim>\<open>undefined\<close> throws.\<close>

definition scrollbackLib :: "Room option \<Rightarrow> fault + Room" where
  "scrollbackLib r = (case r of None \<Rightarrow> Inl TypeError | Some room \<Rightarrow> Inr room)"

definition phaseAfterTwo :: "nat \<Rightarrow> VerificationPhase" where
  "phaseAfterTwo k = (if k < 2 then Requested else Started)"

definition acceptWorld :: world where
  "acceptWorld = \<lparr>backupBefore = Inr (), isVerified = Inr False, requested = Inr (),
     phase = phaseAfterTwo, verifierBound = True, showSas = True, input = Some ''y'',
     mismatched = Inr (), confirmed = Inr (), verified = Inr (), backupAfter = Inr (),
     rooms = [emilRoomOf [plainEvent]], scrollback = scrollbackLib\<rparr>"

definition rejectWorld :: world where
  "rejectWorld = acceptWorld\<lparr>input := Some ''n''\<rparr>"

lemma pollPhase_phaseAfterTwo: "pollPhase phaseAfterTwo 0 = Some 2"
  by (simp add: pollPhase.simps phaseAfterTwo_def)

definition rejectTrace :: "action list" where
  "rejectTrace =
     [Log ''CRYPTO BOOTSTRAPPING'', CheckKeyBackupAndEnable, GetUserVerificationStatus,
      Log ''OWN verify status:'', RequestOwnUserVerification, Log ''CRYPTO BOOTSTRAPPED'',
      Sleep 1000, Log ''Pending'', Sleep 1000, Log ''Pending'', Log ''Done'',
      Verify, Sleep 1000, GetShowSasCallbacks, Log ''Emojis:'',
      Prompt ''Accept? [y/n]'', Log ''Aborting'', Mismatch, Exit 0]"

definition acceptTrace :: "action list" where
  "acceptTrace =
     [Log ''CRYPTO BOOTSTRAPPING'', CheckKeyBackupAndEnable, GetUserVerificationStatus,
      Log ''OWN verify status:'', RequestOwnUserVerification, Log ''CRYPTO BOOTSTRAPPED'',
      Sleep 1000, Log ''Pending'', Sleep 1000, Log ''Pending'', Log ''Done'',
      Verify, Sleep 1000, GetShowSasCallbacks, Log ''Emojis:'',
      Prompt ''Accept? [y/n]'', Confirm, Log ''Accepted'', AwaitVerify,
      CheckKeyBackupAndEnable, OnTimeline, Scrollback (Some (emilRoomOf [plainEvent])) 100,
      Print (ContentLine ''$live150'' \<lparr>msgtype = Some Text, body = Some ''hello'', ciphertext = None\<rparr>)]"

lemma script_rejectWorld: "script rejectWorld = Some (rejectTrace, Exited 0)"
  by (simp add: script_def afterVerification_def bootstrap_def verifyOwnUser_def sasDecision_def
      awaitStarted_def act_def skip_def await_def call_def exit_def rejectWorld_def acceptWorld_def
      pollPhase_phaseAfterTwo pending_def numeral_2_eq_2 rejectTrace_def)

lemma script_acceptWorld: "script acceptWorld = Some (acceptTrace, Return ())"
  by (simp add: script_def afterVerification_def bootstrap_def verifyOwnUser_def sasDecision_def
      awaitStarted_def backfill_def onScrollback_def scrollbackLib_def emilRoomOf_def plainEvent_def
      act_def skip_def await_def exit_def acceptWorld_def
      pollPhase_phaseAfterTwo pending_def numeral_2_eq_2 acceptTrace_def)

text \<open>
  Helpers for the proofs: a trace put in front of a piece of script, the part of the
  verification from the prompt on (lines 183 to 192), and what a run has done when it
  reaches the prompt after \<open>k\<close> rounds of the polling loop.
\<close>

definition prefixed :: "action list \<Rightarrow> 'a proc \<Rightarrow> 'a proc" where
  "prefixed pre m = (case m of None \<Rightarrow> None | Some (t, r) \<Rightarrow> Some (pre @ t, r))"

definition settle :: "world \<Rightarrow> unit proc" where
  "settle w = andThen (sasDecision w) (\<lambda>_. await AwaitVerify (verified w))"

definition beforePrompt :: "nat \<Rightarrow> action list" where
  "beforePrompt k =
     [Log ''CRYPTO BOOTSTRAPPING'', CheckKeyBackupAndEnable, GetUserVerificationStatus,
      Log ''OWN verify status:'', RequestOwnUserVerification, Log ''CRYPTO BOOTSTRAPPED''] @
     pending k @ [Log ''Done'', Verify, Sleep 1000, GetShowSasCallbacks, Log ''Emojis:'']"

lemma prefixed_prefixed: "prefixed a (prefixed b m) = prefixed (a @ b) m"
  by (simp add: prefixed_def split: option.split)

lemma prefixed_Some: "prefixed a (Some (t, r)) = Some (a @ t, r)"
  by (simp add: prefixed_def)

lemma settle_reject:
  "input w \<noteq> Some ''y'' \<Longrightarrow>
   settle w =
     (case (if showSas w then mismatched w else Inr ()) of
        Inl e \<Rightarrow> Some ([Prompt ''Accept? [y/n]'', Log ''Aborting'', Mismatch], Threw e)
      | Inr _ \<Rightarrow>
          Some ([Prompt ''Accept? [y/n]'', Log ''Aborting''] @
                (if showSas w then [Mismatch] else []) @ [Exit 0], Exited 0))"
  by (simp add: settle_def sasDecision_def act_def skip_def call_def exit_def split: sum.split)

lemma settle_accept:
  "input w = Some ''y'' \<Longrightarrow>
   settle w =
     (case (if showSas w then confirmed w else Inr ()) of
        Inl e \<Rightarrow> Some ([Prompt ''Accept? [y/n]'', Confirm], Threw e)
      | Inr _ \<Rightarrow>
          Some ([Prompt ''Accept? [y/n]''] @ (if showSas w then [Confirm] else []) @
                [Log ''Accepted'', AwaitVerify],
                case verified w of Inl e \<Rightarrow> Threw e | Inr _ \<Rightarrow> Return ()))"
  by (simp add: settle_def sasDecision_def act_def skip_def await_def split: sum.split)

lemma verifyOwnUser_cases:
  "verifyOwnUser w =
     (case requested w of
        Inl e \<Rightarrow> Some ([RequestOwnUserVerification], Threw e)
      | Inr _ \<Rightarrow>
         (case pollPhase (phase w) 0 of
            None \<Rightarrow> None
          | Some k \<Rightarrow>
              if verifierBound w
              then prefixed ([RequestOwnUserVerification, Log ''CRYPTO BOOTSTRAPPED''] @ pending k @
                     [Log ''Done'', Verify, Sleep 1000, GetShowSasCallbacks, Log ''Emojis:'']) (settle w)
              else Some ([RequestOwnUserVerification, Log ''CRYPTO BOOTSTRAPPED''] @ pending k @
                     [Log ''Done''], Threw TypeError)))"
  by (simp add: verifyOwnUser_def settle_def awaitStarted_def act_def await_def prefixed_def
      split: sum.split option.split)

lemma bootstrap_cases:
  "bootstrap w =
     (case backupBefore w of
        Inl e \<Rightarrow> Some ([Log ''CRYPTO BOOTSTRAPPING'', CheckKeyBackupAndEnable], Threw e)
      | Inr _ \<Rightarrow>
         (case isVerified w of
            Inl e \<Rightarrow> Some ([Log ''CRYPTO BOOTSTRAPPING'', CheckKeyBackupAndEnable,
                             GetUserVerificationStatus], Threw e)
          | Inr v \<Rightarrow>
              if v then Some ([Log ''CRYPTO BOOTSTRAPPING'', CheckKeyBackupAndEnable,
                               GetUserVerificationStatus, Log ''OWN verify status:''], Return ())
              else prefixed [Log ''CRYPTO BOOTSTRAPPING'', CheckKeyBackupAndEnable,
                             GetUserVerificationStatus, Log ''OWN verify status:'']
                     (verifyOwnUser w)))"
  by (simp add: bootstrap_def act_def await_def skip_def prefixed_def
      split: sum.split option.split)

lemma afterVerification_cases:
  "afterVerification w =
     (case backupAfter w of
        Inl e \<Rightarrow> Some ([CheckKeyBackupAndEnable], Threw e)
      | Inr _ \<Rightarrow> prefixed [CheckKeyBackupAndEnable, OnTimeline] (backfill w))"
  by (simp add: afterVerification_def act_def await_def prefixed_def split: sum.split option.split)

lemma backfill_cases:
  "backfill w =
     (case scrollback w (find (\<lambda>r. name r = ''Emil'') (rooms w)) of
        Inl e \<Rightarrow> Some ([Scrollback (find (\<lambda>r. name r = ''Emil'') (rooms w)) 100], Threw e)
      | Inr emilRoom \<Rightarrow>
          Some (Scrollback (find (\<lambda>r. name r = ''Emil'') (rooms w)) 100 #
                map Print (onScrollback emilRoom), Return ()))"
  by (simp add: backfill_def await_def Let_def split: sum.split)

lemma backfill_trace:
  assumes "backfill w = Some (t, out)"
  shows "Prompt p \<notin> set t \<and> CheckKeyBackupAndEnable \<notin> set t"
  using assms by (auto simp: backfill_cases split: sum.splits)

lemma afterVerification_trace:
  assumes "afterVerification w = Some (t, out)"
  shows "Prompt p \<notin> set t"
  using assms backfill_trace [of w]
  by (auto simp: afterVerification_cases prefixed_def split: sum.splits option.splits)

lemma script_reaches_prompt:
  assumes run: "script w = Some (t, out)" and p: "Prompt p \<in> set t"
  shows "reachesPrompt w"
proof (cases "backupBefore w")
  case (Inl e)
  with run p show ?thesis by (auto simp: script_def bootstrap_cases)
next
  case b: (Inr u)
  show ?thesis
  proof (cases "isVerified w")
    case (Inl e)
    with b run p show ?thesis by (auto simp: script_def bootstrap_cases)
  next
    case v: (Inr v)
    show ?thesis
    proof (cases v)
      case True
      with b v run p afterVerification_trace [of w _ out p] show ?thesis
        by (auto simp: script_def bootstrap_cases split: option.splits)
    next
      case nv: False
      show ?thesis
      proof (cases "requested w")
        case (Inl e)
        with b v nv run p show ?thesis
          by (auto simp: script_def bootstrap_cases verifyOwnUser_cases prefixed_def)
      next
        case r: (Inr u')
        show ?thesis
        proof (cases "pollPhase (phase w) 0")
          case None
          with b v nv r run show ?thesis
            by (auto simp: script_def bootstrap_cases verifyOwnUser_cases prefixed_def)
        next
          case k: (Some k)
          show ?thesis
          proof (cases "verifierBound w")
            case False
            with b v nv r k run p pending_notin(1) [of p k] show ?thesis
              by (auto simp: script_def bootstrap_cases verifyOwnUser_cases prefixed_def)
          next
            case True
            with b v nv r k show ?thesis
              by (simp add: reachesPrompt_def)
          qed
        qed
      qed
    qed
  qed
qed

lemma script_at_prompt:
  assumes "reachesPrompt w" and "pollPhase (phase w) 0 = Some k"
  shows "script w = andThen (prefixed (beforePrompt k) (settle w)) (\<lambda>_. afterVerification w)"
  using assms
  by (simp add: reachesPrompt_def script_def bootstrap_cases verifyOwnUser_cases
      prefixed_prefixed beforePrompt_def)

lemma beforePrompt_props:
  "Confirm \<notin> set (beforePrompt k)" "AwaitVerify \<notin> set (beforePrompt k)"
  "count_list (beforePrompt k) CheckKeyBackupAndEnable = 1"
  using pending_notin(2,3) [of k] pending_no_backup [of k]
  by (simp_all add: beforePrompt_def)

lemma afterVerification_Some: "\<exists>t out. afterVerification w = Some (t, out)"
  by (simp add: afterVerification_cases backfill_cases prefixed_def split: sum.split)

lemma script_reject:
  assumes "reachesPrompt w" and "pollPhase (phase w) 0 = Some k" and "input w \<noteq> Some ''y''"
  shows "script w =
      (case (if showSas w then mismatched w else Inr ()) of
         Inl e \<Rightarrow>
           Some (beforePrompt k @ [Prompt ''Accept? [y/n]'', Log ''Aborting'', Mismatch], Threw e)
       | Inr _ \<Rightarrow>
           Some (beforePrompt k @ [Prompt ''Accept? [y/n]'', Log ''Aborting''] @
                 (if showSas w then [Mismatch] else []) @ [Exit 0], Exited 0))"
  using assms(3)
  by (simp add: script_at_prompt [OF assms(1,2)] settle_reject prefixed_Some split: sum.split)

text \<open>
  The runs that reach the prompt are exactly the runs in whose trace the prompt occurs.
\<close>

lemma reachesPrompt_iff:
  "reachesPrompt w = (\<exists>t out. script w = Some (t, out) \<and> Prompt ''Accept? [y/n]'' \<in> set t)"
proof
  assume r: "reachesPrompt w"
  then obtain k where k: "pollPhase (phase w) 0 = Some k"
    by (auto simp: reachesPrompt_def)
  obtain rest out' where a: "afterVerification w = Some (rest, out')"
    using afterVerification_Some [of w] by blast
  show "\<exists>t out. script w = Some (t, out) \<and> Prompt ''Accept? [y/n]'' \<in> set t"
  proof (cases "input w = Some ''y''")
    case False
    then show ?thesis by (simp add: script_reject [OF r k] split: sum.split)
  next
    case True
    with a show ?thesis
      by (simp add: script_at_prompt [OF r k] settle_accept prefixed_Some prefixed_def
          split: sum.split)
  qed
next
  assume "\<exists>t out. script w = Some (t, out) \<and> Prompt ''Accept? [y/n]'' \<in> set t"
  then show "reachesPrompt w"
    using script_reaches_prompt by blast
qed

lemma reachesPrompt_acceptWorld: "reachesPrompt acceptWorld"
  by (simp add: reachesPrompt_def acceptWorld_def pollPhase_phaseAfterTwo)








text \<open>
  Claim C7, as stated, fails on a rejected comparison: \<^verbatim>\<open>verifier.verify()\<close> has been
  called, the process exits with status 0, and the promise of \<^verbatim>\<open>verify()\<close> was never
  awaited.
\<close>

theorem reject_exits_without_awaiting:
  "script rejectWorld = Some (rejectTrace, Exited 0) \<and>
   Verify \<in> set rejectTrace \<and> AwaitVerify \<notin> set rejectTrace"
  using script_rejectWorld by (simp add: rejectTrace_def)

text \<open>
  Claim C7, amended. Every run in which the user is asked ends. On the answer \<^verbatim>\<open>"y"\<close> the
  script awaits \<^verbatim>\<open>confirm()\<close> (when the verifier has SAS callbacks) and then the promise
  of \<^verbatim>\<open>verify()\<close>, and only when both have completed does it go on with the rest of the
  script; a rejection of either is thrown there and ends the run. On any other answer
  the script calls \<^verbatim>\<open>mismatch()\<close> (when the callbacks are there) without awaiting
  anything: when the call returns the process exits at once with status 0, when it
  throws the run ends with that error; in neither case is the promise of \<^verbatim>\<open>verify()\<close>
  awaited.
\<close>

theorem verification_settles:
  assumes "reachesPrompt w"
  shows "\<exists>t out pre post. script w = Some (t, out) \<and>
           (if input w = Some ''y''
            then t = pre @ [Prompt ''Accept? [y/n]''] @ (if showSas w then [Confirm] else []) @ post \<and>
                 (case (if showSas w then confirmed w else Inr ()) of
                    Inl e \<Rightarrow> post = [] \<and> out = Threw e
                  | Inr _ \<Rightarrow>
                      (case verified w of
                         Inl e \<Rightarrow> post = [Log ''Accepted'', AwaitVerify] \<and> out = Threw e
                       | Inr _ \<Rightarrow>
                           (\<exists>rest. post = [Log ''Accepted'', AwaitVerify] @ rest \<and>
                                  afterVerification w = Some (rest, out))))
            else AwaitVerify \<notin> set t \<and>
                 (case (if showSas w then mismatched w else Inr ()) of
                    Inl e \<Rightarrow>
                      out = Threw e \<and>
                      t = pre @ [Prompt ''Accept? [y/n]'', Log ''Aborting'', Mismatch]
                  | Inr _ \<Rightarrow>
                      out = Exited 0 \<and>
                      t = pre @ [Prompt ''Accept? [y/n]'', Log ''Aborting''] @
                            (if showSas w then [Mismatch] else []) @ [Exit 0]))"
proof -
  from assms obtain k where k: "pollPhase (phase w) 0 = Some k"
    by (auto simp: reachesPrompt_def)
  note s = script_at_prompt [OF assms k]
  show ?thesis
  proof (cases "input w = Some ''y''")
    case False
    note r = script_reject [OF assms k False]
    show ?thesis
    proof (cases "if showSas w then mismatched w else Inr ()")
      case (Inl e)
      let ?t = "beforePrompt k @ [Prompt ''Accept? [y/n]'', Log ''Aborting'', Mismatch]"
      from r Inl have "script w = Some (?t, Threw e)" by simp
      moreover have "AwaitVerify \<notin> set ?t"
        using beforePrompt_props(2) [of k] by simp
      ultimately show ?thesis using False Inl by auto
    next
      case (Inr u)
      let ?t = "beforePrompt k @ [Prompt ''Accept? [y/n]'', Log ''Aborting''] @
            (if showSas w then [Mismatch] else []) @ [Exit 0]"
      from r Inr have "script w = Some (?t, Exited 0)" by simp
      moreover have "AwaitVerify \<notin> set ?t"
        using beforePrompt_props(2) [of k] by simp
      ultimately show ?thesis using False Inr by auto
    qed
  next
    case True
    let ?c = "if showSas w then [Confirm] else []"
    show ?thesis
    proof (cases "if showSas w then confirmed w else Inr ()")
      case (Inl e)
      with True s have "script w = Some (beforePrompt k @ [Prompt ''Accept? [y/n]'', Confirm], Threw e)"
        by (simp add: settle_accept prefixed_Some)
      moreover from Inl have "showSas w" by (simp split: if_splits)
      ultimately have "script w = Some (beforePrompt k @ [Prompt ''Accept? [y/n]''] @ ?c @ [], Threw e)"
        by simp
      with True Inl show ?thesis by auto
    next
      case c: (Inr u)
      show ?thesis
      proof (cases "verified w")
        case (Inl e)
        with True c s have "script w =
            Some (beforePrompt k @ [Prompt ''Accept? [y/n]''] @ ?c @ [Log ''Accepted'', AwaitVerify], Threw e)"
          by (simp add: settle_accept prefixed_Some)
        with True c Inl show ?thesis by auto
      next
        case v: (Inr u')
        obtain rest out' where a: "afterVerification w = Some (rest, out')"
          using afterVerification_Some [of w] by blast
        with True c v s have "script w =
            Some (beforePrompt k @ [Prompt ''Accept? [y/n]''] @ ?c @ [Log ''Accepted'', AwaitVerify] @ rest, out')"
          by (simp add: settle_accept prefixed_Some)
        with True c v a show ?thesis by auto
      qed
    qed
  qed
qed

theorem verification_settles_witness:
  "reachesPrompt acceptWorld \<and> input acceptWorld = Some ''y'' \<and>
   script acceptWorld = Some (acceptTrace, Return ()) \<and>
   (\<exists>pre rest. acceptTrace =
       pre @ [Prompt ''Accept? [y/n]'', Confirm, Log ''Accepted'', AwaitVerify] @ rest \<and>
       afterVerification acceptWorld = Some (rest, Return ()))"
proof -
  note s = script_acceptWorld
  have i: "input acceptWorld = Some ''y''" "showSas acceptWorld"
    "confirmed acceptWorld = Inr ()" "verified acceptWorld = Inr ()"
    by (simp_all add: acceptWorld_def)
  from verification_settles [OF reachesPrompt_acceptWorld] s i
  have "\<exists>pre rest. acceptTrace =
       pre @ [Prompt ''Accept? [y/n]'', Confirm, Log ''Accepted'', AwaitVerify] @ rest \<and>
       afterVerification acceptWorld = Some (rest, Return ())"
    by auto
  with reachesPrompt_acceptWorld s i show ?thesis by simp
qed

text \<open>
  Claim C8, as stated, fails: when the first \<^verbatim>\<open>checkKeyBackupAndEnable\<close> is rejected the
  run ends there with that error; nothing is logged and nothing else is executed.
\<close>

theorem backup_failure_is_fatal:
  "script (acceptWorld\<lparr>backupBefore := Inl (Rejected ''backup unavailable'')\<rparr>) =
     Some ([Log ''CRYPTO BOOTSTRAPPING'', CheckKeyBackupAndEnable],
           Threw (Rejected ''backup unavailable''))"
  by (simp add: script_def bootstrap_cases acceptWorld_def)

text \<open>
  Claim C8, amended. A failure of key-backup activation is not caught. When the call
  before the verification fails, the run ends with that error after the banner and the
  call. When the run reaches the call after the verification and that call fails, the
  run ends with that error: no timeline handler is registered and no backfill is asked
  for.
\<close>

theorem backup_failure_propagates:
  "(backupBefore w = Inl e \<longrightarrow>
      script w = Some ([Log ''CRYPTO BOOTSTRAPPING'', CheckKeyBackupAndEnable], Threw e)) \<and>
   (bootstrap w = Some (t, Return ()) \<and> backupAfter w = Inl e \<longrightarrow>
      script w = Some (t @ [CheckKeyBackupAndEnable], Threw e))"
  by (simp add: script_def bootstrap_cases afterVerification_cases)

definition verifiedWorld :: world where
  "verifiedWorld = acceptWorld\<lparr>isVerified := Inr True\<rparr>"

theorem backup_failure_propagates_witness:
  "backupBefore (acceptWorld\<lparr>backupBefore := Inl (Rejected ''backup unavailable'')\<rparr>) =
      Inl (Rejected ''backup unavailable'') \<and>
   script (acceptWorld\<lparr>backupBefore := Inl (Rejected ''backup unavailable'')\<rparr>) =
      Some ([Log ''CRYPTO BOOTSTRAPPING'', CheckKeyBackupAndEnable], Threw (Rejected ''backup unavailable'')) \<and>
   bootstrap (verifiedWorld\<lparr>backupAfter := Inl (Rejected ''backup unavailable'')\<rparr>) =
      Some ([Log ''CRYPTO BOOTSTRAPPING'', CheckKeyBackupAndEnable, GetUserVerificationStatus,
             Log ''OWN verify status:''], Return ()) \<and>
   backupAfter (verifiedWorld\<lparr>backupAfter := Inl (Rejected ''backup unavailable'')\<rparr>) =
      Inl (Rejected ''backup unavailable'') \<and>
   script (verifiedWorld\<lparr>backupAfter := Inl (Rejected ''backup unavailable'')\<rparr>) =
      Some ([Log ''CRYPTO BOOTSTRAPPING'', CheckKeyBackupAndEnable, GetUserVerificationStatus,
             Log ''OWN verify status:'', CheckKeyBackupAndEnable], Threw (Rejected ''backup unavailable''))"
proof -
  have a: "backupBefore (acceptWorld\<lparr>backupBefore := Inl (Rejected ''backup unavailable'')\<rparr>) =
      Inl (Rejected ''backup unavailable'')"
    by simp
  have b: "bootstrap (verifiedWorld\<lparr>backupAfter := Inl (Rejected ''backup unavailable'')\<rparr>) =
      Some ([Log ''CRYPTO BOOTSTRAPPING'', CheckKeyBackupAndEnable, GetUserVerificationStatus,
             Log ''OWN verify status:''], Return ())"
    by (simp add: bootstrap_cases verifiedWorld_def acceptWorld_def)
  have c: "backupAfter (verifiedWorld\<lparr>backupAfter := Inl (Rejected ''backup unavailable'')\<rparr>) =
      Inl (Rejected ''backup unavailable'')"
    by simp
  from backup_failure_propagates [of "acceptWorld\<lparr>backupBefore := Inl (Rejected ''backup unavailable'')\<rparr>"
      "Rejected ''backup unavailable''"]
    backup_failure_propagates [of "verifiedWorld\<lparr>backupAfter := Inl (Rejected ''backup unavailable'')\<rparr>"
      "Rejected ''backup unavailable''" "[Log ''CRYPTO BOOTSTRAPPING'', CheckKeyBackupAndEnable,
         GetUserVerificationStatus, Log ''OWN verify status:'']"]
    a b c
  show ?thesis by simp
qed

definition noEmilWorld :: world where
  "noEmilWorld = verifiedWorld\<lparr>rooms := [mkRoom ''Other'' [100]]\<rparr>"

text \<open>
  Claim C9, as stated, fails: with no room named Emil in the store the script reports
  nothing; it calls \<^verbatim>\<open>scrollback\<close> with \<^verbatim>\<open>undefined\<close>, and the run ends with whatever the
  library throws on that.
\<close>

theorem missing_room_reaches_scrollback:
  "script noEmilWorld =
     Some ([Log ''CRYPTO BOOTSTRAPPING'', CheckKeyBackupAndEnable, GetUserVerificationStatus,
            Log ''OWN verify status:'', CheckKeyBackupAndEnable, OnTimeline, Scrollback None 100],
           Threw TypeError)"
  by (simp add: script_def bootstrap_cases afterVerification_cases backfill_cases prefixed_def
      noEmilWorld_def verifiedWorld_def acceptWorld_def scrollbackLib_def mkRoom_def)

lemma find_None: "\<forall>r \<in> set rs. \<not> P r \<Longrightarrow> find P rs = None"
  by (simp add: find_None_iff)

text \<open>
  Claim C9, amended. When no room of the store is named Emil, the script does not notice:
  the lookup gives \<^verbatim>\<open>undefined\<close>, which is passed to \<^verbatim>\<open>client.scrollback\<close> with the limit
  100. The script raises no error of its own; the run goes on as the library decides,
  and an error thrown by the library is not caught.
\<close>

theorem missing_room_unchecked:
  assumes "\<forall>r \<in> set (rooms w). name r \<noteq> ''Emil''"
  shows "backfill w =
           (case scrollback w None of
              Inl e \<Rightarrow> Some ([Scrollback None 100], Threw e)
            | Inr emilRoom \<Rightarrow>
                Some (Scrollback None 100 # map Print (onScrollback emilRoom), Return ()))"
  using find_None [OF assms] by (simp add: backfill_cases split: sum.split)

theorem missing_room_unchecked_witness:
  "name (mkRoom ''Other'' [100]) \<noteq> ''Emil'' \<and>
   rooms noEmilWorld = [mkRoom ''Other'' [100]] \<and>
   backfill noEmilWorld = Some ([Scrollback None 100], Threw TypeError)"
proof -
  have r: "rooms noEmilWorld = [mkRoom ''Other'' [100]]"
    by (simp add: noEmilWorld_def verifiedWorld_def acceptWorld_def)
  have n: "name (mkRoom ''Other'' [100]) \<noteq> ''Emil''"
    by (simp add: mkRoom_def)
  have h: "\<forall>r \<in> set (rooms noEmilWorld). name r \<noteq> ''Emil''"
    using r n by simp
  have l: "scrollback noEmilWorld None = Inl TypeError"
    by (simp add: noEmilWorld_def verifiedWorld_def acceptWorld_def scrollbackLib_def)
  from missing_room_unchecked [OF h] r n l
  show ?thesis by simp
qed

end
